theory Spec2Isabelle
  imports Main "HOL-Library.Word"
begin

unbundle bit_operations_syntax

section \<open>The byte buffer and the cursor primitives of \<open>MidiParser\<close>\<close>

text \<open>
  \<open>this.data\<close> is a \<open>Uint8Array\<close>: a list of bytes. \<open>this.pos\<close> is a JavaScript number
  that only ever holds an integer (it starts at 0 and is changed by \<open>++\<close> and by adding
  32-bit integers), so it is an \<open>int\<close>; it may run past the end of the buffer and it
  may become negative. Reading \<open>this.data[i]\<close> outside the buffer gives \<open>undefined\<close>,
  which is \<open>None\<close> here. Nothing in the class throws.
\<close>

type_synonym byte = "8 word"

definition dataAt :: "byte list \<Rightarrow> int \<Rightarrow> byte option" where
  "dataAt d i = (if 0 \<le> i \<and> i < int (length d) then Some (d ! nat i) else None)"

text \<open>
  The bitwise operators of JavaScript first convert their operands to signed 32-bit
  integers; \<open>undefined\<close> converts to 0. Their result is a signed 32-bit integer, read
  back as a number by \<open>sint\<close>.
\<close>

definition toInt32 :: "byte option \<Rightarrow> 32 word" where
  "toInt32 v = (case v of None \<Rightarrow> 0 | Some b \<Rightarrow> ucast b)"

text \<open>\<open>data2 > 0\<close>: a comparison with \<open>undefined\<close> is false.\<close>

definition gt0 :: "byte option \<Rightarrow> bool" where
  "gt0 v = (case v of None \<Rightarrow> False | Some b \<Rightarrow> 0 < b)"

text \<open>
  \<open>Uint8Array.prototype.slice(start, end)\<close>: a negative index counts from the end of
  the array, and both indices are clamped to the array.
\<close>

definition relIndex :: "byte list \<Rightarrow> int \<Rightarrow> nat" where
  "relIndex d i =
     (if i < 0 then nat (max (int (length d) + i) 0) else nat (min i (int (length d))))"

definition slice :: "byte list \<Rightarrow> int \<Rightarrow> int \<Rightarrow> byte list" where
  "slice d start end = take (relIndex d end - relIndex d start) (drop (relIndex d start) d)"

text \<open>\<open>readBytes(n)\<close>: the slice and the new position.\<close>

definition readBytes :: "byte list \<Rightarrow> int \<Rightarrow> int \<Rightarrow> byte list \<times> int" where
  "readBytes d p n = (slice d p (p + n), p + n)"

text \<open>
  \<open>readVarLength()\<close>: the \<open>do ... while (byte & 0x80)\<close> loop, with the accumulator
  \<open>result\<close> as a 32-bit word (it is the result of \<open>|\<close>). The loop ends at the first
  byte without the high bit; \<open>undefined\<close> has none, so it ends at the end of the buffer
  at the latest.
\<close>

function readVarLengthLoop :: "byte list \<Rightarrow> 32 word \<Rightarrow> int \<Rightarrow> int \<times> int" where
  "readVarLengthLoop d result p =
     (if toInt32 (dataAt d p) AND 0x80 \<noteq> 0
      then readVarLengthLoop d (push_bit 7 result OR (toInt32 (dataAt d p) AND 0x7f)) (p + 1)
      else (sint (push_bit 7 result OR (toInt32 (dataAt d p) AND 0x7f)), p + 1))"
  by pat_completeness auto
termination
  by (relation "measure (\<lambda>(d, r, p). nat (int (length d) - p))")
     (auto simp: dataAt_def toInt32_def split: if_splits)

declare readVarLengthLoop.simps [simp del]

definition readVarLength :: "byte list \<Rightarrow> int \<Rightarrow> int \<times> int" where
  "readVarLength d p = readVarLengthLoop d 0 p"

definition readInt16 :: "byte list \<Rightarrow> int \<Rightarrow> int \<times> int" where
  "readInt16 d p =
     (sint (push_bit 8 (toInt32 (dataAt d p)) OR toInt32 (dataAt d (p + 1))), p + 2)"

definition readInt32 :: "byte list \<Rightarrow> int \<Rightarrow> int \<times> int" where
  "readInt32 d p =
     (sint (push_bit 24 (toInt32 (dataAt d p)) OR push_bit 16 (toInt32 (dataAt d (p + 1)))
            OR push_bit 8 (toInt32 (dataAt d (p + 2))) OR toInt32 (dataAt d (p + 3))),
      p + 4)"

section \<open>\<open>parseTrack\<close>\<close>

text \<open>
  The objects pushed on \<open>events\<close>. The fields \<open>note\<close> (here \<open>note'\<close>) and \<open>velocity\<close> are
  the values read from the buffer, which may be \<open>undefined\<close> past its end.
\<close>

datatype event =
    NoteOn (time: int) (note': "byte option") (velocity: "byte option")
  | NoteOff (time: int) (note': "byte option")

text \<open>
  The variables of the \<open>while\<close> loop of \<open>parseTrack\<close>; \<open>evs\<close> is its \<open>events\<close>.
  \<open>currentTime\<close> is a sum of 32-bit integers, which a JavaScript number holds exactly
  below \<open>2 ^ 53\<close>; it is an \<open>int\<close> here. \<open>runningStatus\<close> starts as the number 0 and then
  holds the last status byte.
\<close>

record track_state =
  pos :: int
  currentTime :: int
  runningStatus :: "byte option"
  evs :: "event list"

text \<open>One iteration of the loop body.\<close>

definition eventStep :: "byte list \<Rightarrow> track_state \<Rightarrow> track_state" where
  "eventStep d s =
     (let (deltaTime, p1) = readVarLength d (pos s);
          t = currentTime s + deltaTime;
          byte = dataAt d p1
      in if byte = Some 0xff then
           (let metaType = dataAt d (p1 + 1);
                (len, p3) = readVarLength d (p1 + 2);
                (skipped, p4) = readBytes d p3 len
            in s\<lparr>pos := p4, currentTime := t\<rparr>)
         else if byte = Some 0xf0 \<or> byte = Some 0xf7 then
           (let (len, p2) = readVarLength d (p1 + 1);
                (skipped, p3) = readBytes d p2 len
            in s\<lparr>pos := p3, currentTime := t\<rparr>)
         else if toInt32 byte AND 0x80 \<noteq> 0 then
           (let data1 = dataAt d (p1 + 1);
                data2 = dataAt d (p1 + 2);
                status = toInt32 byte AND 0xf0;
                channel = toInt32 byte AND 0x0f;
                s' = s\<lparr>pos := p1 + 3, currentTime := t, runningStatus := byte\<rparr>
            in if status = 0x90 \<and> gt0 data2 then
                 s'\<lparr>evs := evs s @ [NoteOn t data1 data2]\<rparr>
               else if status = 0x80 \<or> (status = 0x90 \<and> data2 = Some 0) then
                 s'\<lparr>evs := evs s @ [NoteOff t data1]\<rparr>
               else s')
         else
           (let data1 = dataAt d p1;
                data2 = dataAt d (p1 + 1)
            in s\<lparr>pos := p1 + 2, currentTime := t\<rparr>))"

text \<open>
  \<open>while (this.pos < trackEnd)\<close>. The loop need not end, so the result is an option
  and \<open>None\<close> is a run that never returns.
\<close>

partial_function (option) trackLoop :: "byte list \<Rightarrow> int \<Rightarrow> track_state \<Rightarrow> track_state option"
where
  "trackLoop d trackEnd s =
     (if pos s < trackEnd then trackLoop d trackEnd (eventStep d s) else Some s)"

declare trackLoop.simps [code]

record track =
  events :: "event list"

definition initState :: "int \<Rightarrow> track_state" where
  "initState p = \<lparr>pos = p, currentTime = 0, runningStatus = Some 0, evs = []\<rparr>"

text \<open>\<open>parseTrack(division)\<close> at position \<open>p\<close>: the track and the position after it.\<close>

definition parseTrack :: "byte list \<Rightarrow> int \<Rightarrow> int \<Rightarrow> (track \<times> int) option" where
  "parseTrack d division p =
     (let (trackHeader, p1) = readBytes d p 4;
          (trackLength, p2) = readInt32 d p1;
          trackEnd = p2 + trackLength
      in case trackLoop d trackEnd (initState p2) of
           None \<Rightarrow> None
         | Some s \<Rightarrow> Some (\<lparr>events = evs s\<rparr>, pos s))"

section \<open>\<open>parse\<close>\<close>

text \<open>The \<open>for\<close> loop of \<open>parse\<close>, with the number of tracks still to read.\<close>

fun parseTracks :: "byte list \<Rightarrow> int \<Rightarrow> nat \<Rightarrow> int \<Rightarrow> (track list \<times> int) option" where
  "parseTracks d division 0 p = Some ([], p)"
| "parseTracks d division (Suc n) p =
     (case parseTrack d division p of
        None \<Rightarrow> None
      | Some (t, p') \<Rightarrow>
          (case parseTracks d division n p' of
             None \<Rightarrow> None
           | Some (ts, p'') \<Rightarrow> Some (t # ts, p'')))"

text \<open>
  \<open>Math.max\<close> of a list of numbers starts from \<open>-Infinity\<close>, which is its value on no
  argument at all. The bound that an engine puts on the number of arguments of a call
  with a spread array is not part of the language and is not modelled.
\<close>

datatype jsnum = NegInfinity | Num int

fun jsmax :: "jsnum \<Rightarrow> jsnum \<Rightarrow> jsnum" where
  "jsmax NegInfinity y = y"
| "jsmax x NegInfinity = x"
| "jsmax (Num a) (Num b) = Num (max a b)"

definition Math_max :: "jsnum list \<Rightarrow> jsnum" where
  "Math_max xs = foldl jsmax NegInfinity xs"

record sequence =
  format :: int
  trackCount :: int
  division :: int
  tracks :: "track list"
  maxTime :: jsnum

definition parse :: "byte list \<Rightarrow> sequence option" where
  "parse d =
     (let (header, p1) = readBytes d 0 4;
          (headerLength, p2) = readInt32 d p1;
          (format', p3) = readInt16 d p2;
          (trackCount', p4) = readInt16 d p3;
          (division', p5) = readInt16 d p4
      in case parseTracks d division' (nat trackCount') p5 of
           None \<Rightarrow> None
         | Some (tracks', p6) \<Rightarrow>
             Some \<lparr>format = format', trackCount = trackCount', division = division',
                   tracks = tracks',
                   maxTime = Math_max (map (\<lambda>t. Math_max (map (\<lambda>e. Num (time e)) (events t) @ [Num 0]))
                                           tracks')\<rparr>)"

section \<open>Variable-length quantities, as the specification words them\<close>

text \<open>
  A valid base-128 encoding: at least one byte, the high bit set on every byte but the
  last. Its value: the 7-bit groups, most significant first.
\<close>

fun vlqValid :: "byte list \<Rightarrow> bool" where
  "vlqValid [] = False"
| "vlqValid [b] = (b AND 0x80 = 0)"
| "vlqValid (b # bs) = (b AND 0x80 \<noteq> 0 \<and> vlqValid bs)"

definition vlqValue :: "byte list \<Rightarrow> int" where
  "vlqValue bs = foldl (\<lambda>v b. v * 128 + uint (b AND 0x7f)) 0 bs"

section \<open>Runs of the event loop\<close>

text \<open>
  The run of the loop of \<open>parseTrack\<close> from state \<open>s\<close> with end offset \<open>e\<close> comes to an
  end, and every delta time read in it is non-negative.
\<close>

inductive deltasNonneg :: "byte list \<Rightarrow> int \<Rightarrow> track_state \<Rightarrow> bool"
  for d :: "byte list" and e :: int where
  finished: "\<not> pos s < e \<Longrightarrow> deltasNonneg d e s"
| another: "pos s < e \<Longrightarrow> 0 \<le> fst (readVarLength d (pos s)) \<Longrightarrow>
            deltasNonneg d e (eventStep d s) \<Longrightarrow> deltasNonneg d e s"


text \<open>
  The payload size that the iteration from state \<open>s\<close> reads: the variable-length quantity
  after the type byte of a meta event or after the status byte of a system-exclusive
  event, the argument of \<open>readBytes\<close>; 0 for an event without payload.
\<close>

definition sizeRead :: "byte list \<Rightarrow> track_state \<Rightarrow> int" where
  "sizeRead d s =
     (let (deltaTime, p1) = readVarLength d (pos s);
          byte = dataAt d p1
      in if byte = Some 0xff then fst (readVarLength d (p1 + 2))
         else if byte = Some 0xf0 \<or> byte = Some 0xf7 then fst (readVarLength d (p1 + 1))
         else 0)"

text \<open>
  In the run of the loop from state \<open>s\<close> with end offset \<open>e\<close>, every payload size read is
  non-negative. (Every iteration of such a run moves the cursor forward, so it ends.)
\<close>

inductive sizesNonneg :: "byte list \<Rightarrow> int \<Rightarrow> track_state \<Rightarrow> bool"
  for d :: "byte list" and e :: int where
  ended: "\<not> pos s < e \<Longrightarrow> sizesNonneg d e s"
| event: "pos s < e \<Longrightarrow> 0 \<le> sizeRead d s \<Longrightarrow> sizesNonneg d e (eventStep d s) \<Longrightarrow>
          sizesNonneg d e s"

text \<open>The same of the call of \<open>parseTrack\<close> at position \<open>p\<close>.\<close>

definition trackSizesNonneg :: "byte list \<Rightarrow> int \<Rightarrow> bool" where
  "trackSizesNonneg d p = sizesNonneg d (p + 8 + fst (readInt32 d (p + 4))) (initState (p + 8))"

text \<open>
  The same of \<open>n\<close> calls of \<open>parseTrack\<close> in a row, the first at position \<open>p\<close> and each
  next one where the last left the cursor; and of the calls that \<open>parse\<close> makes.
\<close>

inductive tracksSizesNonneg :: "byte list \<Rightarrow> nat \<Rightarrow> int \<Rightarrow> bool"
  for d :: "byte list" where
  noTrack: "tracksSizesNonneg d 0 p"
| oneTrack: "trackSizesNonneg d p \<Longrightarrow>
          trackLoop d (p + 8 + fst (readInt32 d (p + 4))) (initState (p + 8)) = Some s' \<Longrightarrow>
          tracksSizesNonneg d n (pos s') \<Longrightarrow> tracksSizesNonneg d (Suc n) p"

definition parseSizesNonneg :: "byte list \<Rightarrow> bool" where
  "parseSizesNonneg d = tracksSizesNonneg d (nat (fst (readInt16 d 10))) 14"

section \<open>Example buffers\<close>

text \<open>
  A header chunk \<open>MThd\<close> of length 6, format 0, one track, division 96; and the tags
  \<open>MTrk\<close> and \<open>MThd\<close>.
\<close>

definition header1 :: "byte list" where
  "header1 = [0x4D, 0x54, 0x68, 0x64, 0, 0, 0, 6, 0, 0, 0, 1, 0, 0x60]"

definition mtrk :: "byte list" where
  "mtrk = [0x4D, 0x54, 0x72, 0x6B]"

definition mthd :: "byte list" where
  "mthd = [0x4D, 0x54, 0x68, 0x64]"

text \<open>
  Note-On 60 at tick 0, Note-Off 60 at tick 96, then the end-of-track meta event.
\<close>

definition scenarioTrack :: "byte list" where
  "scenarioTrack = [0, 0, 0, 12, 0, 0x90, 0x3C, 0x40, 0x60, 0x80, 0x3C, 0, 0, 0xFF, 0x2F, 0]"

definition scenarioFile :: "byte list" where
  "scenarioFile = header1 @ mtrk @ scenarioTrack"

text \<open>
  A track with the track-name meta event \<open>FF 03\<close> of size 6, whose payload is two
  characters in UTF-8, and a Note-On; the file with this track; the file after its tag
  and the length of its header chunk; and the file after its tag.
\<close>

definition textTrack :: "byte list" where
  "textTrack = [0, 0, 0, 14, 0, 0xFF, 0x03, 0x06, 0xE3, 0x81, 0x8B, 0xE3, 0x81, 0x84,
                0, 0x90, 0x3C, 0x40]"

definition textFile :: "byte list" where
  "textFile = header1 @ mtrk @ textTrack"

definition textRest :: "byte list" where
  "textRest = [0, 0, 0, 1, 0, 0x60] @ mtrk @ textTrack"

definition textBody :: "byte list" where
  "textBody = [0, 0, 0, 6] @ textRest"

text \<open>
  A running-status chain: status 0x90 with note 60 and velocity 64, then delta 0 and the
  bare data bytes note 62, velocity 64.
\<close>

definition runningStatusFile :: "byte list" where
  "runningStatusFile = header1 @ mtrk @ [0, 0, 0, 7, 0, 0x90, 0x3C, 0x40, 0, 0x3E, 0x40]"

text \<open>A header that declares no track, and nothing after it.\<close>

definition noTracksFile :: "byte list" where
  "noTracksFile = [0x4D, 0x54, 0x68, 0x64, 0, 0, 0, 6, 0, 0, 0, 0, 0, 0x60]"

text \<open>
  A track whose only event is a meta event with the payload size \<open>8F FF FF FF 78\<close>:
  35 bits, of which the low 32 are the two's complement of 8.
\<close>

definition loopFile :: "byte list" where
  "loopFile = header1 @ mtrk @ [0, 0, 0, 8, 0, 0xFF, 0x2F, 0x8F, 0xFF, 0xFF, 0xFF, 0x78]"

text \<open>The five bytes that encode \<open>2 ^ 31\<close>.\<close>

definition vlqTwoTo31 :: "byte list" where
  "vlqTwoTo31 = [0x88, 0x80, 0x80, 0x80, 0x00]"

text \<open>The scenario's file cut off in the middle of its first event, before the velocity.\<close>

definition truncatedFile :: "byte list" where
  "truncatedFile = header1 @ mtrk @ [0, 0, 0, 4, 0, 0x90, 0x3C]"

text \<open>A buffer cut off in the middle of the header, before the division.\<close>

definition shortHeader :: "byte list" where
  "shortHeader = [0x4D, 0x54, 0x68, 0x64, 0, 0, 0, 6, 0, 0, 0, 1]"

text \<open>A file whose header chunk is tagged \<open>XXXX\<close> and whose track chunk is tagged \<open>YYYY\<close>.\<close>

definition wrongTagsFile :: "byte list" where
  "wrongTagsFile =
     [0x58, 0x58, 0x58, 0x58, 0, 0, 0, 6, 0, 0, 0, 1, 0, 0x60]
     @ [0x59, 0x59, 0x59, 0x59, 0, 0, 0, 4, 0, 0x90, 0x3C, 0x40]"

text \<open>
  A header chunk that declares the length 14 and carries eight reserved bytes, all 0,
  after the division; the track chunk starts at offset 22.
\<close>

definition longHeaderFile :: "byte list" where
  "longHeaderFile =
     [0x4D, 0x54, 0x68, 0x64, 0, 0, 0, 14, 0, 0, 0, 1, 0, 0x60, 0, 0, 0, 0, 0, 0, 0, 0]
     @ mtrk @ [0, 0, 0, 4, 0, 0x90, 0x3C, 0x40]"

text \<open>
  Two tracks; the first declares the length 1 and holds a four-byte Note-On event, so
  its declared end is offset 23 and its event ends at offset 26.
\<close>

definition overrunFile :: "byte list" where
  "overrunFile =
     [0x4D, 0x54, 0x68, 0x64, 0, 0, 0, 6, 0, 0, 0, 2, 0, 0x60]
     @ mtrk @ [0, 0, 0, 1, 0, 0x90, 0x3C, 0x40]
     @ mtrk @ [0, 0, 0, 4, 0, 0x80, 0x3C, 0]"

section \<open>The running-status branch\<close>

lemma data_byte_step:
  assumes "readVarLength d (pos s) = (delta, p1)"
    and "toInt32 (dataAt d p1) AND 0x80 = 0"
  shows "eventStep d s = s\<lparr>pos := p1 + 2, currentTime := currentTime s + delta\<rparr>"
proof -
  from assms(2) have "dataAt d p1 \<noteq> Some 0xff" "dataAt d p1 \<noteq> Some 0xf0"
    "dataAt d p1 \<noteq> Some 0xf7"
    by (auto simp: toInt32_def)
  with assms show ?thesis
    by (simp add: eventStep_def Let_def)
qed

text \<open>
  C1. After a Note-On with status 0x90, note 60 and velocity 64, the bare data bytes
  62 and 64 are to be decoded with the running status as a second Note-On. In the code
  the branch for a byte without the high bit reads the two data bytes and pushes nothing:
  the track of \<open>runningStatusFile\<close> has the first Note-On only.
\<close>

theorem running_status_chain_dropped:
  "parse runningStatusFile =
     Some \<lparr>format = 0, trackCount = 1, division = 96,
           tracks = [\<lparr>events = [NoteOn 0 (Some 60) (Some 64)]\<rparr>], maxTime = Num 0\<rparr>"
  by code_simp

section \<open>\<open>maxTime\<close>\<close>

text \<open>
  C2. A header declaring no track is to give \<open>maxTime = 0\<close>. In the code the outer
  \<open>Math.max\<close> then has no argument, and \<open>maxTime\<close> is \<open>-Infinity\<close>.
\<close>

theorem maxTime_without_tracks:
  "parse noTracksFile =
     Some \<lparr>format = 0, trackCount = 0, division = 96, tracks = [], maxTime = NegInfinity\<rparr>"
  by code_simp

section \<open>Channel-voice events with a status byte\<close>

text \<open>
  C3. When the byte after the delta time has the high bit set and is none of 0xFF, 0xF0
  and 0xF7, one iteration of the loop consumes it and two data bytes, keeps it as the
  running status, and pushes a Note-On when the message kind is 0x90 and \<open>data2 > 0\<close>,
  a Note-Off when the kind is 0x80 or the kind is 0x90 and \<open>data2\<close> is 0, and nothing
  in every other case; the event carries \<open>data1\<close> and the current time.
\<close>

theorem channel_voice_explicit_status:
  assumes "readVarLength d (pos s) = (delta, p1)"
    and "toInt32 (dataAt d p1) AND 0x80 \<noteq> 0"
    and "dataAt d p1 \<noteq> Some 0xff"
    and "dataAt d p1 \<noteq> Some 0xf0"
    and "dataAt d p1 \<noteq> Some 0xf7"
    and "t = currentTime s + delta"
    and "messageKind = toInt32 (dataAt d p1) AND 0xf0"
    and "data1 = dataAt d (p1 + 1)"
    and "data2 = dataAt d (p1 + 2)"
  shows "pos (eventStep d s) = p1 + 3 \<and> currentTime (eventStep d s) = t
       \<and> runningStatus (eventStep d s) = dataAt d p1
       \<and> (messageKind = 0x90 \<and> gt0 data2 \<longrightarrow>
             evs (eventStep d s) = evs s @ [NoteOn t data1 data2])
       \<and> (messageKind = 0x80 \<or> (messageKind = 0x90 \<and> data2 = Some 0) \<longrightarrow>
             evs (eventStep d s) = evs s @ [NoteOff t data1])
       \<and> (\<not> (messageKind = 0x90 \<and> gt0 data2) \<and>
           \<not> (messageKind = 0x80 \<or> (messageKind = 0x90 \<and> data2 = Some 0)) \<longrightarrow>
             evs (eventStep d s) = evs s)"
  using assms by (auto simp: eventStep_def Let_def gt0_def)

theorem channel_voice_explicit_status_witness:
  "readVarLength scenarioFile (pos (initState 22)) = (0, 23)
   \<and> toInt32 (dataAt scenarioFile 23) AND 0x80 \<noteq> 0
   \<and> dataAt scenarioFile 23 \<noteq> Some 0xff
   \<and> dataAt scenarioFile 23 \<noteq> Some 0xf0 \<and> dataAt scenarioFile 23 \<noteq> Some 0xf7
   \<and> toInt32 (dataAt scenarioFile 23) AND 0xf0 = 0x90 \<and> gt0 (dataAt scenarioFile 25)
   \<and> pos (eventStep scenarioFile (initState 22)) = 26
   \<and> evs (eventStep scenarioFile (initState 22)) = [NoteOn 0 (Some 60) (Some 64)]"
proof -
  have h1: "readVarLength scenarioFile (pos (initState 22)) = (0, 23)" by code_simp
  have h2: "toInt32 (dataAt scenarioFile 23) AND 0x80 \<noteq> 0" by code_simp
  have h3: "dataAt scenarioFile 23 \<noteq> Some 0xff" by code_simp
  have h4: "dataAt scenarioFile 23 \<noteq> Some 0xf0" by code_simp
  have h5: "dataAt scenarioFile 23 \<noteq> Some 0xf7" by code_simp
  have k: "toInt32 (dataAt scenarioFile 23) AND 0xf0 = 0x90" by code_simp
  have g: "gt0 (dataAt scenarioFile 25)" by code_simp
  have v: "dataAt scenarioFile 24 = Some 60" "dataAt scenarioFile 25 = Some 64" by code_simp+
  have e: "evs (initState 22) = []" "currentTime (initState 22) = 0"
    by (simp_all add: initState_def)
  from channel_voice_explicit_status [OF h1 h2 h3 h4 h5 refl refl refl refl] k g v e
  show ?thesis using h1 h2 h3 h4 h5 by simp
qed

section \<open>\<open>readVarLength\<close>\<close>

lemma vlq_foldl:
  "foldl (\<lambda>v b. v * 128 + uint (b AND 0x7f)) a bs
     = a * 128 ^ length bs + foldl (\<lambda>v b. v * 128 + uint (b AND (0x7f::byte))) 0 bs"
proof (induction bs arbitrary: a)
  case Nil
  show ?case by simp
next
  case (Cons b bs)
  show ?case
    by (simp add: Cons.IH [of "a * 128 + uint (b AND 0x7f)"] Cons.IH [of "uint (b AND 0x7f)"]
        algebra_simps)
qed

lemma vlqValue_Cons: "vlqValue (b # bs) = uint (b AND 0x7f) * 128 ^ length bs + vlqValue bs"
  unfolding vlqValue_def using vlq_foldl [of "uint (b AND 0x7f)" bs] by simp

lemma vlqValue_nonneg: "0 \<le> vlqValue bs"
proof (induction bs)
  case Nil
  show ?case by (simp add: vlqValue_def)
next
  case (Cons b bs)
  have "0 \<le> uint (b AND 0x7f) * 128 ^ length bs" by simp
  with Cons show ?case unfolding vlqValue_Cons by linarith
qed

text \<open>\<open>(result << 7) | (byte & 0x7f)\<close> is \<open>result * 128 + (byte & 0x7f)\<close> in 32 bits.\<close>

lemma accumulate_eq:
  "push_bit 7 (acc :: 32 word) OR (toInt32 (Some b) AND 0x7f) = acc * 128 + ucast (b AND 0x7f)"
proof -
  have m: "(0x7f :: 32 word) = mask 7" "(0x7f :: byte) = mask 7"
    by (simp_all add: mask_eq_exp_minus_1)
  have u: "(ucast (b AND 0x7f) :: 32 word) = ucast b AND 0x7f"
    unfolding m by (rule bit_word_eqI) (auto simp: bit_simps)
  have "push_bit 7 acc AND (ucast b AND 0x7f) = (0 :: 32 word)"
    unfolding m by (rule bit_word_eqI) (auto simp: bit_simps)
  then have "push_bit 7 acc + (ucast b AND 0x7f) = push_bit 7 acc OR (ucast b AND (0x7f :: 32 word))"
    by (rule disjunctive_add_eq_or)
  then show ?thesis by (simp add: toInt32_def u push_bit_eq_mult)
qed

lemma ucast_byte_eq_0: "(ucast (c::byte) = (0 :: 32 word)) = (c = 0)"
proof
  assume a: "ucast c = (0::32 word)"
  show "c = 0"
  proof (rule bit_word_eqI)
    fix n assume "n < LENGTH(8)"
    then have "bit c n = bit (ucast c :: 32 word) n" by (simp add: bit_ucast_iff)
    then show "bit c n = bit (0::byte) n" by (simp add: a)
  qed
qed simp

lemma high_bit_toInt32: "(toInt32 (Some b) AND 0x80 = 0) = (b AND 0x80 = 0)"
  using ucast_byte_eq_0 [of "b AND 0x80"] by (simp add: toInt32_def unsigned_and_eq)

lemma dataAt_append: "dataAt (pre @ b # post) (int (length pre)) = Some b"
  by (simp add: dataAt_def)

text \<open>
  On a valid encoding the loop reads exactly its bytes and returns its value reduced to
  a signed 32-bit integer.
\<close>

lemma readVarLengthLoop_vlq:
  "vlqValid bs \<Longrightarrow>
   readVarLengthLoop (pre @ bs @ post) acc (int (length pre))
     = (sint (acc * 128 ^ length bs + word_of_int (vlqValue bs)),
        int (length pre) + int (length bs))"
proof (induction bs arbitrary: pre acc rule: vlqValid.induct)
  case 1
  then show ?case by simp
next
  case (2 b)
  then have "toInt32 (dataAt (pre @ [b] @ post) (int (length pre))) AND 0x80 = 0"
    using dataAt_append [of pre b post] by (simp add: high_bit_toInt32)
  then show ?case
    using dataAt_append [of pre b post]
    by (simp add: readVarLengthLoop.simps [of _ acc] accumulate_eq vlqValue_def)
next
  case (3 b c cs)
  let ?d = "pre @ (b # c # cs) @ post"
  have at: "dataAt ?d (int (length pre)) = Some b"
    using dataAt_append [of pre b "c # cs @ post"] by simp
  from 3(2) have hi: "toInt32 (Some b) AND 0x80 \<noteq> 0" and v: "vlqValid (c # cs)"
    by (simp_all add: high_bit_toInt32)
  have "readVarLengthLoop ?d acc (int (length pre))
      = readVarLengthLoop ?d (acc * 128 + ucast (b AND 0x7f)) (int (length pre) + 1)"
    using hi at by (subst readVarLengthLoop.simps) (simp add: accumulate_eq)
  also have "?d = (pre @ [b]) @ (c # cs) @ post" by simp
  also have "int (length pre) + 1 = int (length (pre @ [b]))" by simp
  also note 3(1) [OF v, of "pre @ [b]" "acc * 128 + ucast (b AND 0x7f)"]
  finally show ?case
    by (simp add: vlqValue_Cons [of b] algebra_simps)
qed

lemma readVarLength_wraps:
  "vlqValid bs \<Longrightarrow>
   readVarLength (pre @ bs @ post) (int (length pre))
     = (sint (word_of_int (vlqValue bs) :: 32 word), int (length pre) + int (length bs))"
  unfolding readVarLength_def using readVarLengthLoop_vlq [where acc = 0] by simp

text \<open>
  C7, as stated, for every valid encoding of every \<open>V \<ge> 0\<close>: it fails on the five bytes
  \<open>88 80 80 80 00\<close>, a valid encoding of \<open>2 ^ 31\<close>, which \<open>readVarLength\<close> reads as
  \<open>- (2 ^ 31)\<close>.
\<close>

theorem readVarLength_roundtrip_counterexample:
  "vlqValid vlqTwoTo31 \<and> vlqValue vlqTwoTo31 = 2147483648
   \<and> readVarLength vlqTwoTo31 0 = (- 2147483648, 5)"
  by code_simp

text \<open>
  C7, amended: for every valid base-128 encoding of a value \<open>V\<close> below \<open>2 ^ 31\<close>, placed
  anywhere in the buffer, \<open>readVarLength\<close> started at its first byte returns \<open>V\<close> and
  leaves the cursor just after its last byte. The single byte 0 decodes to 0.
\<close>

theorem readVarLength_roundtrip:
  assumes "vlqValid bs" and "vlqValue bs < 2 ^ 31"
  shows "readVarLength (pre @ bs @ post) (int (length pre))
           = (vlqValue bs, int (length pre) + int (length bs))"
proof -
  have "sint (word_of_int (vlqValue bs) :: 32 word) = vlqValue bs"
    using assms(2) vlqValue_nonneg [of bs]
    by (simp add: signed_of_int signed_take_bit_int_eq_self)
  with readVarLength_wraps [OF assms(1)] show ?thesis by simp
qed

theorem readVarLength_roundtrip_witness:
  "vlqValid [0x81, 0x00] \<and> vlqValue [0x81, 0x00] < 2 ^ 31
   \<and> readVarLength ([0x90] @ [0x81, 0x00] @ [0x3C]) 1 = (128, 3)
   \<and> vlqValid [0x00] \<and> readVarLength ([] @ [0x00] @ []) 0 = (0, 1)"
proof -
  have a: "vlqValid [0x81, 0x00]" by code_simp
  have b: "vlqValue [0x81, 0x00] < 2 ^ 31" by code_simp
  have c: "vlqValue [0x81, 0x00] = 128" by code_simp
  have a0: "vlqValid [0x00]" by code_simp
  have b0: "vlqValue [0x00] < 2 ^ 31" by code_simp
  have c0: "vlqValue [0x00] = 0" by code_simp
  from readVarLength_roundtrip [OF a b, of "[0x90]" "[0x3C]"]
    readVarLength_roundtrip [OF a0 b0, of "[]" "[]"]
  show ?thesis using a b c a0 c0 by simp
qed

section \<open>Termination\<close>

text \<open>A state that one iteration leaves unchanged, before the end of the track, is repeated for ever.\<close>

lemma trackLoop_fixed_state:
  assumes fx: "eventStep d s = s" and lt: "pos s < e"
  shows "trackLoop d e s = None"
proof -
  have "\<not> (d' = d \<and> e' = e \<and> s' = s)" if run: "trackLoop d' e' s' = Some y" for d' e' s' y
  proof (rule trackLoop.raw_induct
      [where P = "\<lambda>d' e' s' y. \<not> (d' = d \<and> e' = e \<and> s' = s)", OF _ run])
    fix f d' e' s' y
    assume IH: "\<And>a b c y. f a b c = Some y \<Longrightarrow> \<not> (a = d \<and> b = e \<and> c = s)"
      and body: "(if pos s' < e' then f d' e' (eventStep d' s') else Some s') = Some y"
    show "\<not> (d' = d \<and> e' = e \<and> s' = s)"
    proof
      assume eq: "d' = d \<and> e' = e \<and> s' = s"
      with body fx lt have "f d e s = Some y" by simp
      from IH [OF this] show False by simp
    qed
  qed
  then show ?thesis by (cases "trackLoop d e s") auto
qed

lemma loopFile_step: "eventStep loopFile (initState 22) = initState 22"
  by code_simp

text \<open>
  C10. \<open>parse\<close> is to return on every buffer, each iteration of the loop of
  \<open>parseTrack\<close> moving the cursor forward. On \<open>loopFile\<close> the payload size of the meta
  event is read as -8, \<open>readBytes\<close> moves the cursor back to the start of the event,
  and \<open>parse\<close> never returns.
\<close>

theorem parse_loopFile_never_returns: "parse loopFile = None"
proof -
  have h: "readBytes loopFile 0 4 = ([0x4D, 0x54, 0x68, 0x64], 4)"
    "readInt32 loopFile 4 = (6, 8)" "readInt16 loopFile 8 = (0, 10)"
    "readInt16 loopFile 10 = (1, 12)" "readInt16 loopFile 12 = (96, 14)"
    by code_simp+
  have t: "readBytes loopFile 14 4 = (mtrk, 18)" "readInt32 loopFile 18 = (8, 22)"
    by code_simp+
  have "pos (initState 22) < 30" by (simp add: initState_def)
  from trackLoop_fixed_state [OF loopFile_step this]
  have "parseTrack loopFile 96 14 = None" by (simp add: parseTrack_def t)
  then show ?thesis by (simp add: parse_def h)
qed

section \<open>Event times\<close>





lemma parseTrack_unfold:
  "parseTrack d dv p =
     (case trackLoop d (p + 8 + fst (readInt32 d (p + 4))) (initState (p + 8)) of
        None \<Rightarrow> None
      | Some s \<Rightarrow> Some (\<lparr>events = evs s\<rparr>, pos s))"
proof -
  have "snd (readBytes d p 4) = p + 4" "snd (readInt32 d (p + 4)) = p + 8"
    by (simp_all add: readBytes_def readInt32_def)
  then show ?thesis
    by (simp only: parseTrack_def Let_def split_beta)
qed

lemma pos_initState: "pos (initState p) = p"
  by (simp add: initState_def)







section \<open>Forward progress and locality of the reads\<close>

text \<open>\<open>readVarLength\<close> reads at least one byte, and only bytes from its start on.\<close>

lemma readVarLengthLoop_advances: "p < snd (readVarLengthLoop d acc p)"
proof (induction d acc p rule: readVarLengthLoop.induct)
  case (1 d result p)
  show ?case
  proof (cases "toInt32 (dataAt d p) AND 0x80 \<noteq> 0")
    case True
    from 1 [OF True] True show ?thesis
      by (subst readVarLengthLoop.simps) simp
  next
    case False
    then show ?thesis by (subst readVarLengthLoop.simps) simp
  qed
qed

lemma readVarLength_advances: "p < snd (readVarLength d p)"
  by (simp add: readVarLength_def readVarLengthLoop_advances)

lemma readVarLength_undefined: "dataAt d p = None \<Longrightarrow> readVarLength d p = (0, p + 1)"
  unfolding readVarLength_def by (subst readVarLengthLoop.simps) (simp add: toInt32_def)

lemma readVarLengthLoop_agree:
  "(\<And>i. p \<le> i \<Longrightarrow> dataAt d1 i = dataAt d2 i) \<Longrightarrow>
   readVarLengthLoop d1 acc p = readVarLengthLoop d2 acc p"
proof (induction d1 acc p rule: readVarLengthLoop.induct)
  case (1 d1 result p)
  have here: "dataAt d1 p = dataAt d2 p" by (rule "1.prems") simp
  show ?case
  proof (cases "toInt32 (dataAt d1 p) AND 0x80 \<noteq> 0")
    case True
    have "readVarLengthLoop d1 (push_bit 7 result OR (toInt32 (dataAt d1 p) AND 0x7f)) (p + 1)
        = readVarLengthLoop d2 (push_bit 7 result OR (toInt32 (dataAt d1 p) AND 0x7f)) (p + 1)"
      by (rule "1.IH" [OF True]) (rule "1.prems", simp)
    with True here show ?thesis
      by (subst readVarLengthLoop.simps, subst (2) readVarLengthLoop.simps) simp
  next
    case False
    with here show ?thesis
      by (subst readVarLengthLoop.simps, subst (2) readVarLengthLoop.simps) simp
  qed
qed

lemma readVarLength_agree:
  "(\<And>i. p \<le> i \<Longrightarrow> dataAt d1 i = dataAt d2 i) \<Longrightarrow> readVarLength d1 p = readVarLength d2 p"
  unfolding readVarLength_def by (rule readVarLengthLoop_agree)

lemma eventStep_agree:
  assumes ag: "\<And>i. pos s \<le> i \<Longrightarrow> dataAt d1 i = dataAt d2 i"
  shows "eventStep d1 s = eventStep d2 s"
proof -
  obtain dl p1 where r1: "readVarLength d1 (pos s) = (dl, p1)" by (cases "readVarLength d1 (pos s)")
  have r2: "readVarLength d2 (pos s) = (dl, p1)"
    using readVarLength_agree [of "pos s" d1 d2] ag r1 by simp
  have lt: "pos s < p1" using readVarLength_advances [of "pos s" d1] r1 by simp
  have b: "dataAt d1 p1 = dataAt d2 p1" "dataAt d1 (p1 + 1) = dataAt d2 (p1 + 1)"
    "dataAt d1 (p1 + 2) = dataAt d2 (p1 + 2)"
    using lt ag [of p1] ag [of "p1 + 1"] ag [of "p1 + 2"] by simp_all
  have v: "readVarLength d1 (p1 + 1) = readVarLength d2 (p1 + 1)"
    "readVarLength d1 (p1 + 2) = readVarLength d2 (p1 + 2)"
  proof -
    show "readVarLength d1 (p1 + 1) = readVarLength d2 (p1 + 1)"
    proof (rule readVarLength_agree)
      fix i assume "p1 + 1 \<le> i"
      with lt show "dataAt d1 i = dataAt d2 i" by (intro ag) simp
    qed
    show "readVarLength d1 (p1 + 2) = readVarLength d2 (p1 + 2)"
    proof (rule readVarLength_agree)
      fix i assume "p1 + 2 \<le> i"
      with lt show "dataAt d1 i = dataAt d2 i" by (intro ag) simp
    qed
  qed
  show ?thesis
    by (simp add: eventStep_def r1 r2 b v readBytes_def Let_def split_beta)
qed

lemma eventStep_forward_size:
  assumes "0 \<le> sizeRead d s"
  shows "pos s < pos (eventStep d s)"
proof -
  obtain dl p1 where r1: "readVarLength d (pos s) = (dl, p1)" by (cases "readVarLength d (pos s)")
  have lt: "pos s < p1" using readVarLength_advances [of "pos s" d] r1 by simp
  have a1: "p1 + 1 < snd (readVarLength d (p1 + 1))" "p1 + 2 < snd (readVarLength d (p1 + 2))"
    by (rule readVarLength_advances)+
  show ?thesis
    using lt a1 assms
    by (auto simp: eventStep_def sizeRead_def r1 readBytes_def Let_def split_beta)
qed

text \<open>
  A run in which every payload size read is non-negative moves the cursor forward in
  every iteration; started at or after offset \<open>k\<close> it reads only bytes from \<open>k\<close> on, so it
  is the same run on two buffers that agree there.
\<close>

lemma trackLoop_run_agree:
  assumes "sizesNonneg d1 e s"
    and ag: "\<And>i. k \<le> i \<Longrightarrow> dataAt d1 i = dataAt d2 i"
    and "k \<le> pos s"
  shows "\<exists>s'. trackLoop d1 e s = Some s' \<and> trackLoop d2 e s = Some s' \<and> pos s \<le> pos s'"
  using assms(1,3)
proof (induction rule: sizesNonneg.induct)
  case (ended s)
  then show ?case
    by (subst trackLoop.simps, subst (2) trackLoop.simps) simp
next
  case (event s)
  let ?s1 = "eventStep d1 s"
  have fw: "pos s < pos ?s1" by (rule eventStep_forward_size) (rule event.hyps(2))
  have eq: "eventStep d2 s = ?s1"
  proof (rule eventStep_agree [symmetric])
    fix i assume "pos s \<le> i"
    with event.prems show "dataAt d1 i = dataAt d2 i" by (intro ag) simp
  qed
  from fw event.prems have "k \<le> pos ?s1" by simp
  from event.IH [OF this] obtain s' where
    "trackLoop d1 e ?s1 = Some s'" "trackLoop d2 e ?s1 = Some s'" "pos ?s1 \<le> pos s'" by blast
  with event.hyps(1) fw eq show ?case
    by (subst trackLoop.simps, subst (2) trackLoop.simps) simp
qed

lemma readInt32_agree:
  "(\<And>i. p \<le> i \<Longrightarrow> dataAt d1 i = dataAt d2 i) \<Longrightarrow> readInt32 d1 p = readInt32 d2 p"
  by (simp add: readInt32_def)

lemma readInt16_agree:
  "(\<And>i. p \<le> i \<Longrightarrow> dataAt d1 i = dataAt d2 i) \<Longrightarrow> readInt16 d1 p = readInt16 d2 p"
  by (simp add: readInt16_def)

lemma parseTrack_run_agree:
  assumes run: "trackSizesNonneg d1 p"
    and ag: "\<And>i. p + 4 \<le> i \<Longrightarrow> dataAt d1 i = dataAt d2 i"
  shows "\<exists>s'. trackLoop d1 (p + 8 + fst (readInt32 d1 (p + 4))) (initState (p + 8)) = Some s'
           \<and> parseTrack d1 dv p = Some (\<lparr>events = evs s'\<rparr>, pos s')
           \<and> parseTrack d2 dv p = Some (\<lparr>events = evs s'\<rparr>, pos s') \<and> p + 8 \<le> pos s'"
proof -
  have len: "readInt32 d2 (p + 4) = readInt32 d1 (p + 4)"
    by (rule readInt32_agree [symmetric]) (rule ag)
  have ag8: "\<And>i. p + 8 \<le> i \<Longrightarrow> dataAt d1 i = dataAt d2 i"
    by (rule ag) simp
  have "p + 8 \<le> pos (initState (p + 8))" by (simp add: initState_def)
  from trackLoop_run_agree [OF run [unfolded trackSizesNonneg_def] ag8 this]
  obtain s' where "trackLoop d1 (p + 8 + fst (readInt32 d1 (p + 4))) (initState (p + 8)) = Some s'"
    "trackLoop d2 (p + 8 + fst (readInt32 d1 (p + 4))) (initState (p + 8)) = Some s'"
    "pos (initState (p + 8)) \<le> pos s'" by blast
  then show ?thesis
    by (simp add: parseTrack_unfold len initState_def)
qed

lemma parseTracks_run_agree:
  assumes "tracksSizesNonneg d1 n p"
    and ag: "\<And>i. k \<le> i \<Longrightarrow> dataAt d1 i = dataAt d2 i"
    and "k \<le> p + 4"
  shows "\<exists>ts p'. parseTracks d1 dv n p = Some (ts, p') \<and> parseTracks d2 dv n p = Some (ts, p')"
  using assms(1,3)
proof (induction rule: tracksSizesNonneg.induct)
  case (noTrack p)
  show ?case by simp
next
  case (oneTrack p s' n)
  have "\<exists>s''. trackLoop d1 (p + 8 + fst (readInt32 d1 (p + 4))) (initState (p + 8)) = Some s''
           \<and> parseTrack d1 dv p = Some (\<lparr>events = evs s''\<rparr>, pos s'')
           \<and> parseTrack d2 dv p = Some (\<lparr>events = evs s''\<rparr>, pos s'') \<and> p + 8 \<le> pos s''"
  proof (rule parseTrack_run_agree [OF oneTrack.hyps(1)])
    fix i assume "p + 4 \<le> i"
    with oneTrack.prems show "dataAt d1 i = dataAt d2 i" by (intro ag) simp
  qed
  with oneTrack.hyps(2) have t: "parseTrack d1 dv p = Some (\<lparr>events = evs s'\<rparr>, pos s')"
    "parseTrack d2 dv p = Some (\<lparr>events = evs s'\<rparr>, pos s')" and le: "p + 8 \<le> pos s'"
    by auto
  from le oneTrack.prems have "k \<le> pos s' + 4" by simp
  from oneTrack.IH [OF this] obtain ts p' where
    "parseTracks d1 dv n (pos s') = Some (ts, p')" "parseTracks d2 dv n (pos s') = Some (ts, p')"
    by blast
  with t show ?case by simp
qed

lemma parse_unfold:
  "parse d =
     (case parseTracks d (fst (readInt16 d 12)) (nat (fst (readInt16 d 10))) 14 of
        None \<Rightarrow> None
      | Some (tracks', p6) \<Rightarrow>
          Some \<lparr>format = fst (readInt16 d 8), trackCount = fst (readInt16 d 10),
                division = fst (readInt16 d 12), tracks = tracks',
                maxTime = Math_max (map (\<lambda>t. Math_max (map (\<lambda>e. Num (time e)) (events t) @ [Num 0]))
                                        tracks')\<rparr>)"
proof -
  have "snd (readBytes d 0 4) = 4" "snd (readInt32 d 4) = 8" "snd (readInt16 d 8) = 10"
    "snd (readInt16 d 10) = 12" "snd (readInt16 d 12) = 14"
    by (simp_all add: readBytes_def readInt32_def readInt16_def)
  then show ?thesis
    by (simp only: parse_def Let_def split_beta)
qed

lemma parse_run_agree:
  assumes run: "parseSizesNonneg d1"
    and ag: "\<And>i. 8 \<le> i \<Longrightarrow> dataAt d1 i = dataAt d2 i"
  shows "\<exists>sq. parse d1 = Some sq \<and> parse d2 = Some sq"
proof -
  have f: "readInt16 d2 8 = readInt16 d1 8" "readInt16 d2 10 = readInt16 d1 10"
    "readInt16 d2 12 = readInt16 d1 12"
    by (rule readInt16_agree [symmetric], rule ag, simp)+
  have "(8::int) \<le> 14 + 4" by simp
  from parseTracks_run_agree [OF run [unfolded parseSizesNonneg_def] ag this,
      of "fst (readInt16 d1 12)"]
  obtain ts p' where
    "parseTracks d1 (fst (readInt16 d1 12)) (nat (fst (readInt16 d1 10))) 14 = Some (ts, p')"
    "parseTracks d2 (fst (readInt16 d1 12)) (nat (fst (readInt16 d1 10))) 14 = Some (ts, p')"
    by blast
  then show ?thesis
    by (simp add: parse_unfold f)
qed

lemma parse_returns:
  assumes "parseSizesNonneg d"
  shows "\<exists>sq. parse d = Some sq"
  using parse_run_agree [OF assms, of d] by blast

section \<open>Buffers cut short\<close>

text \<open>Past the end of the buffer each iteration reads three times \<open>undefined\<close> and pushes nothing.\<close>

lemma eventStep_past_end:
  assumes "int (length d) \<le> pos s"
  shows "eventStep d s = s\<lparr>pos := pos s + 3, currentTime := currentTime s\<rparr>"
proof -
  from assms have n: "dataAt d (pos s) = None" "dataAt d (pos s + 1) = None"
    by (simp_all add: dataAt_def)
  have r: "readVarLength d (pos s) = (0, pos s + 1)"
    by (rule readVarLength_undefined) (rule n)
  have "toInt32 (dataAt d (pos s + 1)) AND 0x80 = 0" by (simp add: n toInt32_def)
  from data_byte_step [OF r this] show ?thesis by simp
qed

lemma trackLoop_past_end:
  assumes "int (length d) \<le> pos s"
  shows "\<exists>s'. trackLoop d e s = Some s' \<and> evs s' = evs s \<and> pos s \<le> pos s'"
  using assms
proof (induction "nat (e - pos s)" arbitrary: s rule: less_induct)
  case less
  show ?case
  proof (cases "pos s < e")
    case False
    then show ?thesis by (subst trackLoop.simps) simp
  next
    case True
    let ?s1 = "s\<lparr>pos := pos s + 3, currentTime := currentTime s\<rparr>"
    have st: "eventStep d s = ?s1" by (rule eventStep_past_end) (rule less.prems)
    from True have m: "nat (e - pos ?s1) < nat (e - pos s)" by simp
    from less.prems have "int (length d) \<le> pos ?s1" by simp
    from less.hyps [OF m this] obtain s' where
      "trackLoop d e ?s1 = Some s'" "evs s' = evs ?s1" "pos ?s1 \<le> pos s'" by blast
    with True st show ?thesis by (subst trackLoop.simps) simp
  qed
qed

lemma parseTrack_past_end:
  assumes "int (length d) \<le> p + 8"
  shows "\<exists>p'. parseTrack d dv p = Some (\<lparr>events = []\<rparr>, p') \<and> p + 8 \<le> p'"
proof -
  from assms have "int (length d) \<le> pos (initState (p + 8))" by (simp add: initState_def)
  from trackLoop_past_end [OF this, of "p + 8 + fst (readInt32 d (p + 4))"]
  show ?thesis by (auto simp: parseTrack_unfold initState_def)
qed

lemma parseTracks_past_end:
  assumes "int (length d) \<le> p + 8"
  shows "\<exists>p'. parseTracks d dv n p = Some (replicate n \<lparr>events = []\<rparr>, p')"
  using assms
proof (induction n arbitrary: p)
  case 0
  show ?case by simp
next
  case (Suc n)
  from parseTrack_past_end [OF Suc.prems, of dv]
  obtain p' where t: "parseTrack d dv p = Some (\<lparr>events = []\<rparr>, p')" and le: "p + 8 \<le> p'"
    by blast
  from Suc.prems le have "int (length d) \<le> p' + 8" by simp
  from Suc.IH [OF this] t show ?case by auto
qed

lemma Math_max_zeros:
  "Math_max (replicate n (Num 0)) = (if n = 0 then NegInfinity else Num 0)"
proof -
  have "foldl jsmax (Num 0) (replicate k (Num 0)) = Num 0" for k
    by (induction k) simp_all
  then show ?thesis by (cases n) (simp_all add: Math_max_def)
qed

text \<open>
  C4, as stated: a buffer cut off mid-event is to fail with \<open>TruncatedInput\<close>. The code
  has no such error: on \<open>truncatedFile\<close>, cut off before the velocity of its Note-On,
  \<open>parse\<close> returns a Sequence whose track has no event.
\<close>

theorem truncated_input_counterexample:
  "parse truncatedFile =
     Some \<lparr>format = 0, trackCount = 1, division = 96, tracks = [\<lparr>events = []\<rparr>],
           maxTime = Num 0\<rparr>"
  by code_simp

text \<open>
  C4, amended: for every buffer of at most 22 bytes, that is, cut off in the header or in
  the tag or length of the first track chunk, \<open>parse\<close> returns a Sequence: each byte
  missing from a fixed-width read counts as 0, and the Sequence has the header fields so
  read and \<open>trackCount\<close> tracks without events.
\<close>

theorem truncated_buffer_parses:
  assumes "length d \<le> 22"
  shows "parse d =
     Some \<lparr>format = fst (readInt16 d 8), trackCount = fst (readInt16 d 10),
           division = fst (readInt16 d 12),
           tracks = replicate (nat (fst (readInt16 d 10))) \<lparr>events = []\<rparr>,
           maxTime = (if nat (fst (readInt16 d 10)) = 0 then NegInfinity else Num 0)\<rparr>"
proof -
  from assms have "int (length d) \<le> 14 + 8" by simp
  from parseTracks_past_end [OF this, of "fst (readInt16 d 12)" "nat (fst (readInt16 d 10))"]
  obtain p' where "parseTracks d (fst (readInt16 d 12)) (nat (fst (readInt16 d 10))) 14
      = Some (replicate (nat (fst (readInt16 d 10))) \<lparr>events = []\<rparr>, p')" by blast
  then show ?thesis
    by (simp add: parse_unfold Math_max_zeros Math_max_def [of "[Num 0]"])
qed

theorem truncated_buffer_parses_witness:
  "length shortHeader \<le> 22
   \<and> parse shortHeader =
       Some \<lparr>format = 0, trackCount = 1, division = 0, tracks = [\<lparr>events = []\<rparr>],
             maxTime = Num 0\<rparr>"
proof -
  have l: "length shortHeader \<le> 22" by code_simp
  have f: "readInt16 shortHeader 8 = (0, 10)" "readInt16 shortHeader 10 = (1, 12)"
    "readInt16 shortHeader 12 = (0, 14)" by code_simp+
  from truncated_buffer_parses [OF l] show ?thesis using l by (simp add: f)
qed

section \<open>Chunk tags\<close>

lemma dataAt_same_suffix:
  assumes "length a = length b" and "int (length a) \<le> i"
  shows "dataAt (a @ r) i = dataAt (b @ r) i"
  using assms by (auto simp: dataAt_def nth_append)

text \<open>
  C5, as stated: a header chunk not tagged \<open>MThd\<close> is to fail with \<open>InvalidHeaderTag\<close>,
  a track chunk not tagged \<open>MTrk\<close> with \<open>InvalidTrackTag\<close>. The code reads the tags and
  compares them with nothing: \<open>wrongTagsFile\<close>, tagged \<open>XXXX\<close> and \<open>YYYY\<close>, parses.
\<close>

theorem chunk_tags_counterexample:
  "parse wrongTagsFile =
     Some \<lparr>format = 0, trackCount = 1, division = 96,
           tracks = [\<lparr>events = [NoteOn 0 (Some 60) (Some 64)]\<rparr>], maxTime = Num 0\<rparr>"
  by code_simp

lemma textFile_split: "mthd @ textBody = textFile" "mthd @ [0, 0, 0, 6] @ textRest = textFile"
  by (simp_all add: textFile_def textBody_def textRest_def mthd_def header1_def)

lemma textFile_step1:
  "eventStep textFile (initState 22) =
     \<lparr>pos = 32, currentTime = 0, runningStatus = Some 0, evs = []\<rparr>"
  by code_simp

lemma textFile_step2:
  "eventStep textFile \<lparr>pos = 32, currentTime = 0, runningStatus = Some 0, evs = []\<rparr> =
     \<lparr>pos = 36, currentTime = 0, runningStatus = Some 0x90,
      evs = [NoteOn 0 (Some 60) (Some 64)]\<rparr>"
  by code_simp

lemma textFile_sizes:
  "sizeRead textFile (initState 22) = 6"
  "sizeRead textFile \<lparr>pos = 32, currentTime = 0, runningStatus = Some 0, evs = []\<rparr> = 0"
  by code_simp+

lemma textFile_trackLength: "readInt32 textFile 18 = (14, 22)"
  by code_simp

lemma textFile_track_run: "trackSizesNonneg textFile 14"
proof -
  have r2: "sizesNonneg textFile 36 \<lparr>pos = 36, currentTime = 0, runningStatus = Some 0x90,
      evs = [NoteOn 0 (Some 60) (Some 64)]\<rparr>"
    by (rule sizesNonneg.ended) simp
  have r1: "sizesNonneg textFile 36 \<lparr>pos = 32, currentTime = 0, runningStatus = Some 0, evs = []\<rparr>"
    by (rule sizesNonneg.event) (simp_all add: textFile_sizes textFile_step2 r2)
  have "sizesNonneg textFile 36 (initState 22)"
    by (rule sizesNonneg.event) (simp_all add: textFile_sizes textFile_step1 r1 pos_initState)
  then show ?thesis by (simp add: trackSizesNonneg_def textFile_trackLength)
qed

lemma textFile_run: "parseSizesNonneg textFile"
proof -
  have n: "nat (fst (readInt16 textFile 10)) = Suc 0" by code_simp
  have l: "trackLoop textFile (14 + 8 + fst (readInt32 textFile (14 + 4))) (initState (14 + 8)) =
      Some \<lparr>pos = 36, currentTime = 0, runningStatus = Some 0x90,
            evs = [NoteOn 0 (Some 60) (Some 64)]\<rparr>"
    by code_simp
  have "tracksSizesNonneg textFile (Suc 0) 14"
    by (rule tracksSizesNonneg.oneTrack [OF textFile_track_run l]) (rule tracksSizesNonneg.noTrack)
  then show ?thesis by (simp add: parseSizesNonneg_def n)
qed

text \<open>
  C5, amended: \<open>parse\<close> and \<open>parseTrack\<close> read the four bytes of a chunk tag and compare
  them with nothing. On every buffer in whose decoding every payload size read (of a meta
  or system-exclusive event) is non-negative, \<open>parse\<close> returns the same Sequence whatever
  the four bytes of the header tag are; and on every track chunk in whose decoding every
  payload size read is non-negative, \<open>parseTrack\<close> returns the same track and the same end
  position whatever the four bytes of its tag are.
\<close>

theorem chunk_tags_not_validated:
  assumes "length htag = 4" and "length htag' = 4" and "length ttag = 4" and "length ttag' = 4"
  shows "(parseSizesNonneg (htag @ body) \<longrightarrow>
            (\<exists>sq. parse (htag @ body) = Some sq \<and> parse (htag' @ body) = Some sq))
       \<and> (trackSizesNonneg (pre @ ttag @ rest) (int (length pre)) \<longrightarrow>
            (\<exists>t p'. parseTrack (pre @ ttag @ rest) dv (int (length pre)) = Some (t, p')
                  \<and> parseTrack (pre @ ttag' @ rest) dv (int (length pre)) = Some (t, p')))"
proof (intro conjI impI)
  assume run: "parseSizesNonneg (htag @ body)"
  show "\<exists>sq. parse (htag @ body) = Some sq \<and> parse (htag' @ body) = Some sq"
  proof (rule parse_run_agree [OF run])
    fix i :: int assume "8 \<le> i"
    with assms show "dataAt (htag @ body) i = dataAt (htag' @ body) i"
      by (intro dataAt_same_suffix) simp_all
  qed
next
  assume run: "trackSizesNonneg (pre @ ttag @ rest) (int (length pre))"
  have "\<exists>s'. trackLoop (pre @ ttag @ rest)
          (int (length pre) + 8 + fst (readInt32 (pre @ ttag @ rest) (int (length pre) + 4)))
          (initState (int (length pre) + 8)) = Some s'
      \<and> parseTrack (pre @ ttag @ rest) dv (int (length pre)) = Some (\<lparr>events = evs s'\<rparr>, pos s')
      \<and> parseTrack (pre @ ttag' @ rest) dv (int (length pre)) = Some (\<lparr>events = evs s'\<rparr>, pos s')
      \<and> int (length pre) + 8 \<le> pos s'"
  proof (rule parseTrack_run_agree [OF run])
    fix i :: int assume "int (length pre) + 4 \<le> i"
    with assms have "dataAt ((pre @ ttag) @ rest) i = dataAt ((pre @ ttag') @ rest) i"
      by (intro dataAt_same_suffix) simp_all
    then show "dataAt (pre @ ttag @ rest) i = dataAt (pre @ ttag' @ rest) i" by simp
  qed
  then show "\<exists>t p'. parseTrack (pre @ ttag @ rest) dv (int (length pre)) = Some (t, p')
      \<and> parseTrack (pre @ ttag' @ rest) dv (int (length pre)) = Some (t, p')" by blast
qed

theorem chunk_tags_not_validated_witness:
  "length mthd = 4 \<and> length [0x58, 0x58, 0x58, 0x58 :: byte] = 4
   \<and> length mtrk = 4 \<and> length [0x59, 0x59, 0x59, 0x59 :: byte] = 4
   \<and> parseSizesNonneg (mthd @ textBody)
   \<and> parse ([0x58, 0x58, 0x58, 0x58] @ textBody) =
       Some \<lparr>format = 0, trackCount = 1, division = 96,
             tracks = [\<lparr>events = [NoteOn 0 (Some 60) (Some 64)]\<rparr>], maxTime = Num 0\<rparr>
   \<and> trackSizesNonneg (header1 @ mtrk @ textTrack) (int (length header1))
   \<and> parseTrack (header1 @ [0x59, 0x59, 0x59, 0x59] @ textTrack) 96 (int (length header1)) =
       Some (\<lparr>events = [NoteOn 0 (Some 60) (Some 64)]\<rparr>, 36)"
proof -
  have l: "length mthd = 4" "length [0x58, 0x58, 0x58, 0x58 :: byte] = 4"
    "length mtrk = 4" "length [0x59, 0x59, 0x59, 0x59 :: byte] = 4"
    by (simp_all add: mthd_def mtrk_def)
  have h: "int (length header1) = 14" by (simp add: header1_def)
  have n1: "parseSizesNonneg (mthd @ textBody)"
    unfolding textFile_split by (rule textFile_run)
  have n2: "trackSizesNonneg (header1 @ mtrk @ textTrack) (int (length header1))"
    using textFile_track_run by (simp add: textFile_def h)
  have p1: "parse (mthd @ textBody) =
       Some \<lparr>format = 0, trackCount = 1, division = 96,
             tracks = [\<lparr>events = [NoteOn 0 (Some 60) (Some 64)]\<rparr>], maxTime = Num 0\<rparr>"
    by code_simp
  have p2: "parseTrack (header1 @ mtrk @ textTrack) 96 (int (length header1)) =
       Some (\<lparr>events = [NoteOn 0 (Some 60) (Some 64)]\<rparr>, 36)"
    by code_simp
  from chunk_tags_not_validated [OF l, of textBody header1 textTrack 96] n1 n2 p1 p2
  show ?thesis using l by auto
qed

section \<open>The declared length of the header chunk\<close>

text \<open>
  C6, as stated: with a declared header length of 14 the first track chunk is to be read
  at offset \<open>8 + 14 = 22\<close>. The code reads it at offset 14: on \<open>longHeaderFile\<close> the track
  of the Sequence is empty, while the chunk at offset 22 holds a Note-On.
\<close>

theorem header_length_counterexample:
  "parse longHeaderFile =
     Some \<lparr>format = 0, trackCount = 1, division = 96, tracks = [\<lparr>events = []\<rparr>],
           maxTime = Num 0\<rparr>
   \<and> parseTrack longHeaderFile 96 22 = Some (\<lparr>events = [NoteOn 0 (Some 60) (Some 64)]\<rparr>, 34)"
  by code_simp

text \<open>
  C6, amended: \<open>parse\<close> reads the declared length of the header chunk and does not use
  it. On every buffer the header decoder consumes exactly 14 bytes: the fields are read
  at offsets 8, 10 and 12 and the track chunks from offset 14 on, whatever length is
  declared. On every buffer in whose decoding every payload size read is non-negative,
  \<open>parse\<close> returns the same Sequence whatever the four length bytes are.
\<close>

theorem header_length_ignored:
  assumes "length tag = 4" and "length len = 4" and "length len' = 4"
  shows "parse d =
           (case parseTracks d (fst (readInt16 d 12)) (nat (fst (readInt16 d 10))) 14 of
              None \<Rightarrow> None
            | Some (ts, p) \<Rightarrow>
                Some \<lparr>format = fst (readInt16 d 8), trackCount = fst (readInt16 d 10),
                      division = fst (readInt16 d 12), tracks = ts,
                      maxTime = Math_max (map (\<lambda>t. Math_max (map (\<lambda>e. Num (time e)) (events t)
                                                                  @ [Num 0])) ts)\<rparr>)
       \<and> (parseSizesNonneg (tag @ len @ rest) \<longrightarrow>
            (\<exists>sq. parse (tag @ len @ rest) = Some sq \<and> parse (tag @ len' @ rest) = Some sq))"
proof (intro conjI impI)
  show "parse d =
           (case parseTracks d (fst (readInt16 d 12)) (nat (fst (readInt16 d 10))) 14 of
              None \<Rightarrow> None
            | Some (ts, p) \<Rightarrow>
                Some \<lparr>format = fst (readInt16 d 8), trackCount = fst (readInt16 d 10),
                      division = fst (readInt16 d 12), tracks = ts,
                      maxTime = Math_max (map (\<lambda>t. Math_max (map (\<lambda>e. Num (time e)) (events t)
                                                                  @ [Num 0])) ts)\<rparr>)"
    by (rule parse_unfold)
next
  assume run: "parseSizesNonneg (tag @ len @ rest)"
  show "\<exists>sq. parse (tag @ len @ rest) = Some sq \<and> parse (tag @ len' @ rest) = Some sq"
  proof (rule parse_run_agree [OF run])
    fix i :: int assume "8 \<le> i"
    with assms have "dataAt ((tag @ len) @ rest) i = dataAt ((tag @ len') @ rest) i"
      by (intro dataAt_same_suffix) simp_all
    then show "dataAt (tag @ len @ rest) i = dataAt (tag @ len' @ rest) i" by simp
  qed
qed

theorem header_length_ignored_witness:
  "length mthd = 4 \<and> length [0, 0, 0, 6 :: byte] = 4 \<and> length [0, 0, 0, 14 :: byte] = 4
   \<and> parseSizesNonneg (mthd @ [0, 0, 0, 6] @ textRest)
   \<and> parse (mthd @ [0, 0, 0, 14] @ textRest) =
       Some \<lparr>format = 0, trackCount = 1, division = 96,
             tracks = [\<lparr>events = [NoteOn 0 (Some 60) (Some 64)]\<rparr>], maxTime = Num 0\<rparr>
   \<and> parseTracks (mthd @ [0, 0, 0, 14] @ textRest) 96 1 14 =
       Some ([\<lparr>events = [NoteOn 0 (Some 60) (Some 64)]\<rparr>], 36)"
proof -
  have l: "length mthd = 4" "length [0, 0, 0, 6 :: byte] = 4" "length [0, 0, 0, 14 :: byte] = 4"
    by (simp_all add: mthd_def)
  have n: "parseSizesNonneg (mthd @ [0, 0, 0, 6] @ textRest)"
    unfolding textFile_split by (rule textFile_run)
  have p: "parse (mthd @ [0, 0, 0, 6] @ textRest) =
       Some \<lparr>format = 0, trackCount = 1, division = 96,
             tracks = [\<lparr>events = [NoteOn 0 (Some 60) (Some 64)]\<rparr>], maxTime = Num 0\<rparr>"
    by code_simp
  have f: "readInt16 (mthd @ [0, 0, 0, 14] @ textRest) 12 = (96, 14)"
    "readInt16 (mthd @ [0, 0, 0, 14] @ textRest) 10 = (1, 12)" by code_simp+
  have q: "parse (mthd @ [0, 0, 0, 14] @ textRest) =
       Some \<lparr>format = 0, trackCount = 1, division = 96,
             tracks = [\<lparr>events = [NoteOn 0 (Some 60) (Some 64)]\<rparr>], maxTime = Num 0\<rparr>"
    using header_length_ignored [OF l, of "[]" textRest] n p by auto
  have "parseTracks (mthd @ [0, 0, 0, 14] @ textRest) 96 1 14 =
       Some ([\<lparr>events = [NoteOn 0 (Some 60) (Some 64)]\<rparr>], 36)"
    by code_simp
  with q show ?thesis using l n by simp
qed

section \<open>Events that run past the end of their track\<close>

text \<open>
  C9, as stated: an event that moves the cursor strictly past the declared end of its
  track is to fail with \<open>TrackOverrun\<close>. On \<open>overrunFile\<close> the first track ends at
  offset 23 by its declared length and its event ends at offset 26; \<open>parse\<close> returns both
  tracks, the second read from offset 26.
\<close>

theorem overrun_counterexample:
  "parse overrunFile =
     Some \<lparr>format = 0, trackCount = 2, division = 96,
           tracks = [\<lparr>events = [NoteOn 0 (Some 60) (Some 64)]\<rparr>,
                     \<lparr>events = [NoteOff 0 (Some 60)]\<rparr>],
           maxTime = Num 0\<rparr>"
  by code_simp

text \<open>
  C9, amended: the position is compared with the end offset before each event only (the
  condition of the \<open>while\<close> loop). When an event moves the cursor strictly past the end
  offset, the loop ends there without an error, with the state that event left: its
  events are kept and the cursor stays past the end offset.
\<close>

theorem overrun_ends_loop:
  assumes "pos s < e" and "e < pos (eventStep d s)"
  shows "trackLoop d e s = Some (eventStep d s)"
  using assms by (subst trackLoop.simps, subst trackLoop.simps) simp

theorem overrun_ends_loop_witness:
  "pos (initState 22) < 23 \<and> 23 < pos (eventStep overrunFile (initState 22))
   \<and> trackLoop overrunFile 23 (initState 22) =
       Some \<lparr>pos = 26, currentTime = 0, runningStatus = Some 0x90,
             evs = [NoteOn 0 (Some 60) (Some 64)]\<rparr>"
proof -
  have a: "pos (initState 22) < 23" by (simp add: initState_def)
  have st: "eventStep overrunFile (initState 22) =
      \<lparr>pos = 26, currentTime = 0, runningStatus = Some 0x90,
       evs = [NoteOn 0 (Some 60) (Some 64)]\<rparr>" by code_simp
  have b: "23 < pos (eventStep overrunFile (initState 22))" by (simp add: st)
  from overrun_ends_loop [OF a b] show ?thesis using a b by (simp add: st)
qed

end
